theory Spec2Isabelle
  imports Main
begin

section \<open>The stored procedure \<open>create_view_using_metadata\<close>\<close>

text \<open>
  The procedure of \<^verbatim>\<open>src/JavaScript/sf_create_view_using_metadata.js\<close> reads the column
  metadata of a table, asks the engine which attribute paths occur inside every VARIANT
  column, and concatenates the text of a CREATE OR REPLACE VIEW statement.  Its data are
  JavaScript strings and one counter; they are modelled as \<open>string\<close> and \<open>nat\<close>.  Strings
  are ASCII text: a \<open>char\<close> is one byte.

  The engine is the only collaborator.  A statement is text; its result set is a list of
  rows read front to back with \<^verbatim>\<open>next()\<close> and \<^verbatim>\<open>getColumnValue(i)\<close>.  The row types follow
  the SELECT lists of the three queries.  A statement the engine rejects raises inside the
  engine and ends the procedure; the model covers the runs in which every statement is
  executed.
\<close>

subsection \<open>Characters and JavaScript string primitives\<close>

abbreviation dq :: string where "dq \<equiv> [CHR 0x22]"
abbreviation sq :: string where "sq \<equiv> [CHR 0x27]"
abbreviation bs :: string where "bs \<equiv> [CHR 0x5C]"
abbreviation nl :: string where "nl \<equiv> [CHR 0x0A]"

text \<open>
  \<^verbatim>\<open>String.prototype.toUpperCase\<close> on ASCII text: the letters a..z move to A..Z and every
  other character stays.
\<close>

definition toUpperCase_char :: "char \<Rightarrow> char" where
  "toUpperCase_char c =
     (case map_of (zip ''abcdefghijklmnopqrstuvwxyz'' ''ABCDEFGHIJKLMNOPQRSTUVWXYZ'') c of
        Some u \<Rightarrow> u
      | None \<Rightarrow> c)"

definition toUpperCase :: "string \<Rightarrow> string" where
  "toUpperCase s = map toUpperCase_char s"

text \<open>\<^verbatim>\<open>s.charAt(i)\<close> is the one-character string at \<open>i\<close>, and the empty string out of range.\<close>

definition charAt :: "string \<Rightarrow> nat \<Rightarrow> string" where
  "charAt s i = (if i < length s then [s ! i] else [])"

text \<open>\<^verbatim>\<open>s.substring(1)\<close> drops the first character; it is empty when \<open>s\<close> has at most one.\<close>

definition substring1 :: "string \<Rightarrow> string" where
  "substring1 s = drop 1 s"

text \<open>The decimal text JavaScript concatenates for a non-negative integer.\<close>

fun string_of_nat :: "nat \<Rightarrow> string" where
  "string_of_nat n =
     (if n < 10 then [''0123456789'' ! n]
      else string_of_nat (n div 10) @ [''0123456789'' ! (n mod 10)])"

declare string_of_nat.simps [simp del]

text \<open>
  \<^verbatim>\<open>f.index\<close> is an integer for an element of the array and NULL for every other row of
  the flattening; string concatenation turns \<^verbatim>\<open>null\<close> into the text \<^verbatim>\<open>null\<close>.
\<close>

fun js_index :: "nat option \<Rightarrow> string" where
  "js_index None = ''null''"
| "js_index (Some i) = string_of_nat i"

subsection \<open>Rows, the engine, the accumulators\<close>

text \<open>A row of the metadata query: COLUMN_NAME, DATA_TYPE.\<close>
type_synonym column_row = "string \<times> string"

text \<open>A row of the element query: path_name, attribute_type, alias_name.\<close>
type_synonym element_row = "string \<times> string \<times> string"

text \<open>A row of the array query: path_name, attribute_type, attribute_name, f.index.\<close>
type_synonym array_row = "string \<times> string \<times> string \<times> nat option"

record engine =
  exec_columns :: "string \<Rightarrow> column_row list"
  exec_elements :: "string \<Rightarrow> element_row list"
  exec_array :: "string \<Rightarrow> array_row list"
  exec_view :: "string \<Rightarrow> bool"

text \<open>
  The variables the loops update: \<open>col_list\<close>, \<open>table_list\<close> and \<open>array_num\<close>.  The field
  \<open>arrays_seen\<close> is a history variable that no function reads: it records, for every
  ARRAY path in the order met, the number given to it, the expression that was flattened
  and the rows the array query returned.
\<close>

record build =
  col_list :: string
  table_list :: string
  array_num :: nat
  arrays_seen :: "(nat \<times> string \<times> array_row list) list"

subsection \<open>Variables and initialisation (lines 71 to 86)\<close>

definition path_name :: string where
  "path_name = ''regexp_replace(regexp_replace(f.path,'' @ sq @ bs @ bs @ ''[(.+)'' @ bs @ bs
     @ '']'),'('' @ bs @ bs @ ''w+)','' @ sq @ dq @ bs @ bs @ ''1'' @ dq @ sq @ '')''"

definition alias_name :: string where
  "alias_name = ''REGEXP_REPLACE(REGEXP_REPLACE(f.path, '' @ sq @ bs @ bs @ ''[(.+)'' @ bs @ bs
     @ '']'),'[^a-zA-Z0-9]','_')''"

definition alias_dbl_quote :: "string \<Rightarrow> string" where
  "alias_dbl_quote COLUMN_CASE =
     (if charAt (toUpperCase COLUMN_CASE) 0 = ''M'' then dq else [])"

definition attribute_type :: "string \<Rightarrow> string" where
  "attribute_type COLUMN_TYPE =
     (if charAt (toUpperCase COLUMN_TYPE) 0 = ''S''
      then ''DECODE (typeof(f.value),'ARRAY','ARRAY','STRING')''
      else ''DECODE (substr(typeof(f.value),1,1),'A','ARRAY','B','BOOLEAN','I','FLOAT','D','FLOAT','STRING')'')"

definition initial :: "string \<Rightarrow> string \<Rightarrow> build" where
  "initial SCHEMA_NAME V_TAB_NM =
     \<lparr>col_list = [], table_list = SCHEMA_NAME @ ''.'' @ V_TAB_NM, array_num = 0,
      arrays_seen = []\<rparr>"

subsection \<open>The three queries\<close>

definition sqlMetaQryBld :: "string \<Rightarrow> string \<Rightarrow> string \<Rightarrow> string" where
  "sqlMetaQryBld DATA_BASE SCHEMA_NAME V_TAB_NM =
     ''select distinct COLUMN_NAME '' @ nl @
     '', DATA_TYPE '' @ nl @
     ''from '' @ DATA_BASE @ ''.'' @ ''information_schema.columns '' @ nl @
     ''where table_name = '' @ sq @ V_TAB_NM @ sq @ nl @
     ''and table_schema = '' @ sq @ SCHEMA_NAME @ sq"

definition element_query :: "string \<Rightarrow> string \<Rightarrow> string \<Rightarrow> string" where
  "element_query COLUMN_TYPE tables col =
     ''SELECT DISTINCT '' @ nl @
     path_name @ '' AS path_name, '' @ nl @
     attribute_type COLUMN_TYPE @ '' AS attribute_type, '' @ nl @
     alias_name @ '' AS alias_name '' @ nl @
     ''FROM '' @ tables @ '', '' @ nl @
     ''LATERAL FLATTEN('' @ col @ '', RECURSIVE=>true) f '' @ nl @
     ''WHERE TYPEOF(f.value) != 'OBJECT' '' @ nl @
     ''AND NOT contains(f.path,'[') ''"

definition array_query :: "string \<Rightarrow> string \<Rightarrow> string \<Rightarrow> string \<Rightarrow> string" where
  "array_query COLUMN_TYPE tables col epath =
     ''SELECT DISTINCT '' @ nl @
     path_name @ '' AS path_name, '' @ nl @
     attribute_type COLUMN_TYPE @ '' AS attribute_type, '' @ nl @
     alias_name @ '' AS attribute_name, '' @ nl @
     ''f.index '' @ nl @
     ''FROM '' @ tables @ '', '' @ nl @
     ''LATERAL FLATTEN('' @ col @ '':'' @ epath @ '', RECURSIVE=>true) f '' @ nl @
     ''WHERE REGEXP_REPLACE(f.path, '.+('' @ bs @ bs @ ''w+'' @ bs @ bs @ ''[.+'' @ bs @ bs
       @ '']).+', 'SubArrayEle') != 'SubArrayEle' ''"

subsection \<open>The loops (lines 106 to 248)\<close>

text \<open>The guard \<^verbatim>\<open>if (acc != "") acc += ", \n"\<close> in front of every addition.\<close>

definition add_separator :: "string \<Rightarrow> string" where
  "add_separator acc = (if acc \<noteq> [] then acc @ '', '' @ nl else acc)"

text \<open>
  Lines 203 to 219: the loop over the rows of the array query, with the two local
  accumulators \<open>simple_array_col_list\<close> and \<open>object_array_col_list\<close>.
\<close>

fun array_loop ::
  "string \<Rightarrow> string \<Rightarrow> string \<Rightarrow> string \<Rightarrow> nat \<Rightarrow> array_row list \<Rightarrow> string \<times> string
     \<Rightarrow> string \<times> string" where
  "array_loop q col epath ealias n [] acc = acc"
| "array_loop q col epath ealias n ((p, t, a, i) # rows) (simple_array_col_list, object_array_col_list) =
     (if substring1 p = []
      then array_loop q col epath ealias n rows
             (add_separator simple_array_col_list
                @ col @ '':'' @ epath
                @ ''['' @ js_index i @ '']''
                @ ''::'' @ t
                @ '' as '' @ q @ col @ ''_'' @ ealias @ ''_'' @ js_index i @ q,
              object_array_col_list)
      else array_loop q col epath ealias n rows
             (simple_array_col_list,
              add_separator object_array_col_list
                @ ''a'' @ string_of_nat n @ ''.value:'' @ substring1 p
                @ ''::'' @ t
                @ '' as '' @ q @ col @ ''_'' @ ealias @ a @ q))"

text \<open>
  Lines 155 to 236: one ARRAY path.  The counter moves first, the array query runs against
  the current \<open>table_list\<close>, and the decision between the two accumulators follows the loop.
\<close>

definition array_element ::
  "engine \<Rightarrow> string \<Rightarrow> string \<Rightarrow> string \<Rightarrow> build \<Rightarrow> element_row \<Rightarrow> build" where
  "array_element E COLUMN_CASE COLUMN_TYPE col st e =
     (case e of (epath, etype, ealias) \<Rightarrow>
        let n = array_num st + 1;
            rows = exec_array E (array_query COLUMN_TYPE (table_list st) col epath);
            (simple_array_col_list, object_array_col_list) =
               array_loop (alias_dbl_quote COLUMN_CASE) col epath ealias n rows ([], []);
            seen = arrays_seen st @ [(n, col @ '':'' @ epath, rows)]
        in if object_array_col_list = []
           then st\<lparr>array_num := n,
                   col_list := add_separator (col_list st) @ simple_array_col_list,
                   arrays_seen := seen\<rparr>
           else st\<lparr>array_num := n,
                   col_list := add_separator (col_list st) @ object_array_col_list,
                   table_list := table_list st @ '','' @ nl @ '' LATERAL FLATTEN(''
                                   @ col @ '':'' @ epath @ '') a'' @ string_of_nat n,
                   arrays_seen := seen\<rparr>)"

text \<open>Lines 143 to 236: the body of the loop over the element rows.\<close>

definition element_body ::
  "engine \<Rightarrow> string \<Rightarrow> string \<Rightarrow> string \<Rightarrow> build \<Rightarrow> element_row \<Rightarrow> build" where
  "element_body E COLUMN_CASE COLUMN_TYPE col st e =
     (case e of (epath, etype, ealias) \<Rightarrow>
        if etype \<noteq> ''ARRAY''
        then st\<lparr>col_list := add_separator (col_list st)
                   @ col @ '':'' @ epath
                   @ ''::'' @ etype
                   @ '' as '' @ col @ ''_'' @ ealias\<rparr>
        else array_element E COLUMN_CASE COLUMN_TYPE col st e)"

text \<open>
  Line 129: \<^verbatim>\<open>while (element_res.next() && element_res.getColumnValue(1) != "")\<close>.  The
  loop ends when the rows are exhausted and also at the first row whose path is empty.
\<close>

fun element_loop ::
  "engine \<Rightarrow> string \<Rightarrow> string \<Rightarrow> string \<Rightarrow> build \<Rightarrow> element_row list \<Rightarrow> build" where
  "element_loop E COLUMN_CASE COLUMN_TYPE col st [] = st"
| "element_loop E COLUMN_CASE COLUMN_TYPE col st (e # es) =
     (if fst e \<noteq> []
      then element_loop E COLUMN_CASE COLUMN_TYPE col
             (element_body E COLUMN_CASE COLUMN_TYPE col st e) es
      else st)"

text \<open>Lines 110 to 247: the body of the loop over the metadata rows.\<close>

definition column_body ::
  "engine \<Rightarrow> string \<Rightarrow> string \<Rightarrow> build \<Rightarrow> column_row \<Rightarrow> build" where
  "column_body E COLUMN_CASE COLUMN_TYPE st c =
     (case c of (col, data_type) \<Rightarrow>
        if data_type = ''VARIANT''
        then element_loop E COLUMN_CASE COLUMN_TYPE col st
               (exec_elements E (element_query COLUMN_TYPE (table_list st) col))
        else st\<lparr>col_list := add_separator (col_list st) @ col\<rparr>)"

fun column_loop ::
  "engine \<Rightarrow> string \<Rightarrow> string \<Rightarrow> build \<Rightarrow> column_row list \<Rightarrow> build" where
  "column_loop E COLUMN_CASE COLUMN_TYPE st [] = st"
| "column_loop E COLUMN_CASE COLUMN_TYPE st (c # cs) =
     column_loop E COLUMN_CASE COLUMN_TYPE (column_body E COLUMN_CASE COLUMN_TYPE st c) cs"

subsection \<open>The statement and the procedure (lines 251 to 258)\<close>

definition view_ddl :: "string \<Rightarrow> build \<Rightarrow> string" where
  "view_ddl V_TAB_NM st =
     ''CREATE OR REPLACE VIEW '' @ V_TAB_NM @ ''_VW AS '' @ nl @
     ''SELECT '' @ nl @ col_list st @ nl @
     ''FROM '' @ table_list st"

text \<open>The accumulators when the loop over the metadata rows has ended.\<close>

definition generate ::
  "engine \<Rightarrow> string \<Rightarrow> string \<Rightarrow> string \<Rightarrow> string \<Rightarrow> string \<Rightarrow> build" where
  "generate E DATA_BASE SCHEMA_NAME V_TAB_NM COLUMN_CASE COLUMN_TYPE =
     column_loop E COLUMN_CASE COLUMN_TYPE (initial SCHEMA_NAME V_TAB_NM)
       (exec_columns E (sqlMetaQryBld DATA_BASE SCHEMA_NAME V_TAB_NM))"

definition create_view_using_metadata ::
  "engine \<Rightarrow> string \<Rightarrow> string \<Rightarrow> string \<Rightarrow> string \<Rightarrow> string \<Rightarrow> bool" where
  "create_view_using_metadata E DATA_BASE SCHEMA_NAME V_TAB_NM COLUMN_CASE COLUMN_TYPE =
     exec_view E (view_ddl V_TAB_NM
       (generate E DATA_BASE SCHEMA_NAME V_TAB_NM COLUMN_CASE COLUMN_TYPE))"

section \<open>Vocabulary of the specification\<close>

subsection \<open>Fragments, candidates and sources\<close>

abbreviation sep :: string where "sep \<equiv> '', '' @ nl"

text \<open>A projection list as text: the fragments in order, \<open>sep\<close> between neighbours.\<close>

fun joined :: "string list \<Rightarrow> string" where
  "joined [] = []"
| "joined [f] = f"
| "joined (f # g # fs) = f @ sep @ joined (g # fs)"

text \<open>Adding fragments one at a time the way the loops do.\<close>

definition add_all :: "string \<Rightarrow> string list \<Rightarrow> string" where
  "add_all acc fs = foldl (\<lambda>a f. add_separator a @ f) acc fs"

text \<open>
  The test of line 204 decides what an element is: an object member is a row whose path
  still has characters once the first one (the separator) is dropped.
\<close>

definition is_object :: "array_row \<Rightarrow> bool" where
  "is_object r = (substring1 (fst r) \<noteq> [])"

text \<open>
  Simple candidate: expression \<open><col>:<path>[<index>]::<mappedType>\<close>, alias
  \<open><col>_<elementAlias>_<index>\<close> inside the quote of the case policy.
\<close>

definition simple_fragment :: "string \<Rightarrow> string \<Rightarrow> string \<Rightarrow> string \<Rightarrow> array_row \<Rightarrow> string" where
  "simple_fragment q col epath ealias r =
     (case r of (p, t, a, i) \<Rightarrow>
        col @ '':'' @ epath @ ''['' @ js_index i @ '']'' @ ''::'' @ t
          @ '' as '' @ q @ col @ ''_'' @ ealias @ ''_'' @ js_index i @ q)"

text \<open>
  Object candidate: expression \<open>a<n>.value:<relativePath-without-leading-separator>::<mappedType>\<close>,
  alias \<open><col>_<elementAlias><memberAlias>\<close> inside the quote of the case policy.
\<close>

definition object_fragment :: "string \<Rightarrow> string \<Rightarrow> string \<Rightarrow> nat \<Rightarrow> array_row \<Rightarrow> string" where
  "object_fragment q col ealias n r =
     (case r of (p, t, a, i) \<Rightarrow>
        ''a'' @ string_of_nat n @ ''.value:'' @ substring1 p @ ''::'' @ t
          @ '' as '' @ q @ col @ ''_'' @ ealias @ a @ q)"

text \<open>The text of one auxiliary join source: its id and its origin expression.\<close>

definition lateral_flatten :: "nat \<times> string \<Rightarrow> string" where
  "lateral_flatten src =
     (case src of (n, origin) \<Rightarrow>
        '','' @ nl @ '' LATERAL FLATTEN('' @ origin @ '') a'' @ string_of_nat n)"

text \<open>The auxiliary sources of a history: the arrays that had an object member, in order.\<close>

definition has_object :: "nat \<times> string \<times> array_row list \<Rightarrow> bool" where
  "has_object a = (filter is_object (snd (snd a)) \<noteq> [])"

definition registered :: "(nat \<times> string \<times> array_row list) list \<Rightarrow> (nat \<times> string) list" where
  "registered seen = map (\<lambda>a. (fst a, fst (snd a))) (filter has_object seen)"

subsection \<open>The type policy as an expression of the engine\<close>







subsection \<open>The history and the accumulators\<close>

text \<open>
  What the history has to say about the two other accumulators: \<open>table_list\<close> is the base
  table followed by the auxiliary sources of the history, and the arrays met so far carry
  the numbers from one up to the counter.
\<close>

definition history_agrees :: "string \<Rightarrow> build \<Rightarrow> bool" where
  "history_agrees base st \<longleftrightarrow>
     table_list st = base @ concat (map lateral_flatten (registered (arrays_seen st)))
     \<and> map fst (arrays_seen st) = [1..<Suc (array_num st)]"

subsection \<open>Engines for the examples\<close>

text \<open>An engine that answers every query of a kind with the same rows.\<close>

definition fixed_engine :: "column_row list \<Rightarrow> element_row list \<Rightarrow> array_row list \<Rightarrow> engine" where
  "fixed_engine cols elements rows =
     \<lparr>exec_columns = (\<lambda>_. cols), exec_elements = (\<lambda>_. elements),
      exec_array = (\<lambda>_. rows), exec_view = (\<lambda>_. True)\<rparr>"

section \<open>Auxiliary facts\<close>

subsection \<open>Strings and the example engines\<close>

lemma fixed_engine_simps [simp]:
  "exec_columns (fixed_engine cols elements rows) s = cols"
  "exec_elements (fixed_engine cols elements rows) s = elements"
  "exec_array (fixed_engine cols elements rows) s = rows"
  by (simp_all add: fixed_engine_def)

lemma string_of_nat_small [simp]:
  "string_of_nat 0 = ''0''" "string_of_nat (Suc 0) = ''1''" "string_of_nat 2 = ''2''"
  by (simp_all add: string_of_nat.simps)







subsection \<open>Adding fragments to a list\<close>

lemma add_separator_nonempty: "acc \<noteq> [] \<Longrightarrow> add_separator acc = acc @ sep"
  by (simp add: add_separator_def)

lemma add_all_Nil [simp]: "add_all acc [] = acc"
  by (simp add: add_all_def)

lemma add_all_Cons [simp]: "add_all acc (f # fs) = add_all (add_separator acc @ f) fs"
  by (simp add: add_all_def)

lemma add_all_nonempty: "acc \<noteq> [] \<Longrightarrow> add_all acc fs = acc @ concat (map (\<lambda>f. sep @ f) fs)"
  by (induction fs arbitrary: acc) (simp_all add: add_separator_def)

lemma joined_Cons: "joined (f # fs) = f @ concat (map (\<lambda>f. sep @ f) fs)"
  by (induction fs arbitrary: f) simp_all

lemma add_all_joined: "\<forall>f\<in>set fs. f \<noteq> [] \<Longrightarrow> add_all [] fs = joined fs"
proof (cases fs)
  case Nil
  then show ?thesis by simp
next
  case (Cons f gs)
  assume "\<forall>f\<in>set fs. f \<noteq> []"
  with Cons have "f \<noteq> []" by simp
  then show ?thesis
    using Cons by (simp add: add_separator_def add_all_nonempty joined_Cons)
qed

lemma add_all_eq_Nil: "\<forall>f\<in>set fs. f \<noteq> [] \<Longrightarrow> add_all [] fs = [] \<longleftrightarrow> fs = []"
  by (cases fs) (simp_all add: add_separator_def add_all_nonempty)

lemma simple_fragment_nonempty: "simple_fragment q col epath ealias r \<noteq> []"
  by (simp add: simple_fragment_def split: prod.splits)

lemma object_fragment_nonempty: "object_fragment q col ealias n r \<noteq> []"
  by (simp add: object_fragment_def split: prod.splits)

subsection \<open>One ARRAY path\<close>

lemma array_loop_eq:
  "array_loop q col epath ealias n rows (s, ob) =
     (add_all s (map (simple_fragment q col epath ealias) (filter (\<lambda>r. \<not> is_object r) rows)),
      add_all ob (map (object_fragment q col ealias n) (filter is_object rows)))"
proof (induction rows arbitrary: s ob)
  case Nil
  show ?case by simp
next
  case (Cons r rows)
  obtain p t a i where r: "r = (p, t, a, i)" by (cases r) auto
  show ?case
    by (simp add: r Cons.IH is_object_def simple_fragment_def object_fragment_def)
qed

lemma filter_simple_all: "filter is_object rows = [] \<Longrightarrow> filter (\<lambda>r. \<not> is_object r) rows = rows"
  by (induction rows) (auto split: if_splits)


lemma array_element_eq:
  "array_element E cc ct col st (epath, etype, ealias) =
     (let n = array_num st + 1;
          rows = exec_array E (array_query ct (table_list st) col epath);
          q = alias_dbl_quote cc;
          seen = arrays_seen st @ [(n, col @ '':'' @ epath, rows)]
      in if filter is_object rows = []
         then st\<lparr>array_num := n,
                 col_list := add_separator (col_list st)
                   @ joined (map (simple_fragment q col epath ealias) rows),
                 arrays_seen := seen\<rparr>
         else st\<lparr>array_num := n,
                 col_list := add_separator (col_list st)
                   @ joined (map (object_fragment q col ealias n) (filter is_object rows)),
                 table_list := table_list st @ lateral_flatten (n, col @ '':'' @ epath),
                 arrays_seen := seen\<rparr>)"
proof (cases "filter is_object (exec_array E (array_query ct (table_list st) col epath)) = []")
  case True
  then show ?thesis
    by (simp add: array_element_def array_loop_eq Let_def add_all_joined
        simple_fragment_nonempty filter_simple_all)
next
  case False
  then have "add_all [] (map (object_fragment (alias_dbl_quote cc) col ealias (array_num st + 1))
      (filter is_object (exec_array E (array_query ct (table_list st) col epath)))) \<noteq> []"
    by (simp add: add_all_eq_Nil object_fragment_nonempty)
  with False show ?thesis
    by (simp add: array_element_def array_loop_eq Let_def add_all_joined
        object_fragment_nonempty lateral_flatten_def)
qed

lemma element_body_array:
  "element_body E cc ct col st (epath, ''ARRAY'', ealias) =
     array_element E cc ct col st (epath, ''ARRAY'', ealias)"
  by (simp add: element_body_def)

lemma array_num_array_element:
  "array_num (array_element E cc ct col st e) = array_num st + 1"
proof -
  obtain epath etype ealias where e: "e = (epath, etype, ealias)" by (cases e) auto
  show ?thesis
    unfolding e array_element_eq by (simp add: Let_def)
qed

lemma array_num_element_body:
  "array_num (element_body E cc ct col st e) =
     (if fst (snd e) = ''ARRAY'' then array_num st + 1 else array_num st)"
  by (cases e) (simp add: element_body_def array_num_array_element)

lemma array_num_element_loop:
  "array_num st \<le> array_num (element_loop E cc ct col st es)"
proof (induction es arbitrary: st)
  case Nil
  show ?case by simp
next
  case (Cons e es)
  have "array_num st \<le> array_num (element_body E cc ct col st e)"
    by (simp add: array_num_element_body)
  with Cons [of "element_body E cc ct col st e"] show ?case by simp
qed

lemma array_num_column_body:
  "array_num st \<le> array_num (column_body E cc ct st c)"
  by (cases c) (simp add: column_body_def array_num_element_loop)

subsection \<open>Columns that are not VARIANT\<close>

lemma column_loop_scalar:
  "\<forall>c\<in>set cols. snd c \<noteq> ''VARIANT'' \<Longrightarrow>
   column_loop E cc ct st cols = st\<lparr>col_list := add_all (col_list st) (map fst cols)\<rparr>"
proof (induction cols arbitrary: st)
  case Nil
  show ?case by simp
next
  case (Cons c cols)
  obtain col data_type where c: "c = (col, data_type)" by (cases c) auto
  with Cons.prems have "data_type \<noteq> ''VARIANT''" by simp
  with Cons show ?case by (simp add: c column_body_def)
qed

subsection \<open>The projection list only grows, behind a separator\<close>

lemma element_body_extends:
  assumes "col_list st \<noteq> []"
  shows "\<exists>x. col_list (element_body E cc ct col st e) = col_list st @ sep @ x"
proof -
  obtain epath etype ealias where e: "e = (epath, etype, ealias)" by (cases e) auto
  show ?thesis
  proof (cases "etype = ''ARRAY''")
    case True
    then show ?thesis
      using assms unfolding e True element_body_array array_element_eq
      by (simp add: Let_def add_separator_nonempty)
  next
    case False
    then show ?thesis
      using assms by (simp add: e element_body_def add_separator_nonempty)
  qed
qed

lemma element_loop_extends:
  "col_list st \<noteq> [] \<Longrightarrow>
   col_list (element_loop E cc ct col st es) = col_list st
   \<or> (\<exists>x. col_list (element_loop E cc ct col st es) = col_list st @ sep @ x)"
proof (induction es arbitrary: st)
  case Nil
  show ?case by simp
next
  case (Cons e es)
  show ?case
  proof (cases "fst e \<noteq> []")
    case False
    then show ?thesis by simp
  next
    case True
    let ?st1 = "element_body E cc ct col st e"
    obtain x where x: "col_list ?st1 = col_list st @ sep @ x"
      using element_body_extends [OF Cons.prems] by blast
    then have "col_list ?st1 \<noteq> []" by simp
    from Cons.IH [OF this] x True show ?thesis by auto
  qed
qed

lemma column_body_extends:
  assumes "col_list st \<noteq> []"
  shows "col_list (column_body E cc ct st c) = col_list st
   \<or> (\<exists>x. col_list (column_body E cc ct st c) = col_list st @ sep @ x)"
proof -
  obtain col data_type where c: "c = (col, data_type)" by (cases c) auto
  show ?thesis
    using assms element_loop_extends [OF assms]
    by (simp add: c column_body_def add_separator_nonempty)
qed

lemma column_loop_extends:
  "col_list st \<noteq> [] \<Longrightarrow>
   col_list (column_loop E cc ct st cs) = col_list st
   \<or> (\<exists>x. col_list (column_loop E cc ct st cs) = col_list st @ sep @ x)"
proof (induction cs arbitrary: st)
  case Nil
  show ?case by simp
next
  case (Cons c cs)
  let ?st1 = "column_body E cc ct st c"
  from column_body_extends [OF Cons.prems]
  consider "col_list ?st1 = col_list st" | x where "col_list ?st1 = col_list st @ sep @ x"
    by blast
  then show ?case
  proof cases
    case 1
    with Cons.IH [of ?st1] Cons.prems show ?thesis by simp
  next
    case 2
    then have "col_list ?st1 \<noteq> []" by simp
    from Cons.IH [OF this] 2 show ?thesis by auto
  qed
qed

subsection \<open>The history agrees with the accumulators\<close>

lemma registered_snoc:
  "registered (seen @ [(n, origin, rows)]) =
     registered seen @ (if filter is_object rows = [] then [] else [(n, origin)])"
  by (simp add: registered_def has_object_def)

lemma arrays_seen_rendered_array_element:
  assumes "table_list st = base @ concat (map lateral_flatten (registered (arrays_seen st)))"
  shows "table_list (array_element E cc ct col st e) =
           base @ concat (map lateral_flatten (registered (arrays_seen (array_element E cc ct col st e))))"
proof -
  obtain epath etype ealias where e: "e = (epath, etype, ealias)" by (cases e) auto
  show ?thesis
    using assms unfolding e array_element_eq
    by (simp add: Let_def registered_snoc)
qed

lemma arrays_seen_numbered_array_element:
  assumes "map fst (arrays_seen st) = [1..<Suc (array_num st)]"
  shows "map fst (arrays_seen (array_element E cc ct col st e)) =
           [1..<Suc (array_num (array_element E cc ct col st e))]"
proof -
  obtain epath etype ealias where e: "e = (epath, etype, ealias)" by (cases e) auto
  show ?thesis
    using assms unfolding e array_element_eq
    by (simp add: Let_def)
qed

lemma history_agrees_array_element:
  "history_agrees base st \<Longrightarrow> history_agrees base (array_element E cc ct col st e)"
  unfolding history_agrees_def
  using arrays_seen_rendered_array_element arrays_seen_numbered_array_element by blast

lemma history_agrees_element_body:
  assumes "history_agrees base st"
  shows "history_agrees base (element_body E cc ct col st e)"
proof -
  obtain epath etype ealias where e: "e = (epath, etype, ealias)" by (cases e) auto
  show ?thesis
  proof (cases "etype = ''ARRAY''")
    case True
    then show ?thesis
      using history_agrees_array_element [OF assms] by (simp add: e element_body_def)
  next
    case False
    then show ?thesis
      using assms by (simp add: e element_body_def history_agrees_def)
  qed
qed

lemma history_agrees_element_loop:
  "history_agrees base st \<Longrightarrow> history_agrees base (element_loop E cc ct col st es)"
  by (induction es arbitrary: st) (simp_all add: history_agrees_element_body)

lemma history_agrees_column_body:
  assumes "history_agrees base st"
  shows "history_agrees base (column_body E cc ct st c)"
proof -
  obtain col data_type where c: "c = (col, data_type)" by (cases c) auto
  show ?thesis
  proof (cases "data_type = ''VARIANT''")
    case True
    then show ?thesis
      using history_agrees_element_loop [OF assms] by (simp add: c column_body_def)
  next
    case False
    then show ?thesis
      using assms by (simp add: c column_body_def history_agrees_def)
  qed
qed

lemma history_agrees_column_loop:
  "history_agrees base st \<Longrightarrow> history_agrees base (column_loop E cc ct st cs)"
  by (induction cs arbitrary: st) (simp_all add: history_agrees_column_body)

lemma history_agrees_initial: "history_agrees (S @ ''.'' @ T) (initial S T)"
  by (simp add: history_agrees_def initial_def registered_def)

lemma generate_inv:
  "table_list (generate E D S T cc ct) =
      (S @ ''.'' @ T) @ concat (map lateral_flatten
         (registered (arrays_seen (generate E D S T cc ct))))
   \<and> map fst (arrays_seen (generate E D S T cc ct)) =
      [1..<Suc (array_num (generate E D S T cc ct))]"
  using history_agrees_column_loop [OF history_agrees_initial]
  unfolding generate_def history_agrees_def by blast

lemma lateral_flatten_nonempty: "lateral_flatten src \<noteq> []"
  by (simp add: lateral_flatten_def split: prod.splits)

lemma concat_lateral_Nil: "concat (map lateral_flatten xs) = [] \<longleftrightarrow> xs = []"
  by (cases xs) (simp_all add: lateral_flatten_nonempty)

lemma registered_Nil_iff:
  "registered seen \<noteq> [] \<longleftrightarrow> (\<exists>a\<in>set seen. \<exists>r\<in>set (snd (snd a)). is_object r)"
  by (auto simp: registered_def has_object_def filter_empty_conv)

lemma map_fst_registered: "map fst (registered seen) = map fst (filter has_object seen)"
  by (simp add: registered_def)

lemma registered_sorted:
  assumes "map fst seen = [1..<k]"
  shows "sorted_wrt (<) (map fst (registered seen))"
proof -
  have "sorted_wrt (<) (map fst seen)"
    unfolding assms by simp
  then have "sorted_wrt (\<lambda>a b. fst a < fst b) seen"
    by (simp add: sorted_wrt_map)
  then have "sorted_wrt (\<lambda>a b. fst a < fst b) (filter has_object seen)"
    by (rule sorted_wrt_filter)
  then show ?thesis
    by (simp add: map_fst_registered sorted_wrt_map)
qed

section \<open>The claims\<close>




text \<open>
  C2 (the code at the failing input).  With COLUMN_CASE \<open>match col case\<close> the quote is
  selected, and lines 210 and 217 put it around the aliases of array elements; line 150
  leaves it out, so the alias of a leaf path that is not an array is emitted bare, whatever
  COLUMN_CASE is.
\<close>

theorem leaf_alias_unquoted_in_match_case:
  "alias_dbl_quote ''match col case'' = dq
   \<and> col_list (generate (fixed_engine [(''V'', ''VARIANT'')] [(dq @ ''a'' @ dq, ''STRING'', ''a'')] [])
        ''D'' ''S'' ''T'' ''match col case'' ''match datatypes'')
     = ''V:'' @ dq @ ''a'' @ dq @ ''::STRING as V_a''
   \<and> col_list (element_body E COLUMN_CASE COLUMN_TYPE col st (epath, ''STRING'', ealias))
     = add_separator (col_list st) @ col @ '':'' @ epath @ ''::STRING as '' @ col @ ''_'' @ ealias"
  by (simp add: generate_def column_body_def element_body_def initial_def add_separator_def
      alias_dbl_quote_def charAt_def toUpperCase_def toUpperCase_char_def)

text \<open>
  C3 (the code at the failing input).  The test of line 129 is part of the loop condition:
  a row with an empty path ends the loop.  When it comes first, the leaf path behind it is
  never processed; when it comes last, the same leaf path is.  In general every row behind
  the first empty path is ignored.
\<close>

theorem empty_path_row_ends_loop:
  "col_list (generate (fixed_engine [(''V'', ''VARIANT'')]
        [([], ''STRING'', []), (dq @ ''a'' @ dq, ''STRING'', ''a'')] [])
        ''D'' ''S'' ''T'' ''uppercase cols'' ''match datatypes'') = []
   \<and> col_list (generate (fixed_engine [(''V'', ''VARIANT'')]
        [(dq @ ''a'' @ dq, ''STRING'', ''a''), ([], ''STRING'', [])] [])
        ''D'' ''S'' ''T'' ''uppercase cols'' ''match datatypes'')
     = ''V:'' @ dq @ ''a'' @ dq @ ''::STRING as V_a''
   \<and> element_loop E COLUMN_CASE COLUMN_TYPE col st (es @ ([], etype, ealias) # rest)
     = element_loop E COLUMN_CASE COLUMN_TYPE col st es"
proof -
  have "element_loop E COLUMN_CASE COLUMN_TYPE col st (es @ ([], etype, ealias) # rest)
      = element_loop E COLUMN_CASE COLUMN_TYPE col st es"
    by (induction es arbitrary: st) simp_all
  then show ?thesis
    by (simp add: generate_def column_body_def element_body_def initial_def add_separator_def)
qed

text \<open>
  C4.  When the metadata query returns only columns that are not VARIANT, the fragments
  added to the projection list are exactly the column names, in the order of the result,
  each without cast and without alias, and the source list is the base table alone.  As
  text (column names are identifiers, none is empty) the statement selects the names
  separated by \<open>sep\<close> from \<open><schema>.<table>\<close>.
\<close>

theorem scalar_only_view:
  assumes "cols = exec_columns E (sqlMetaQryBld DATA_BASE SCHEMA_NAME V_TAB_NM)"
      and "\<forall>c\<in>set cols. snd c \<noteq> ''VARIANT''"
      and "fin = generate E DATA_BASE SCHEMA_NAME V_TAB_NM COLUMN_CASE COLUMN_TYPE"
  shows "col_list fin = add_all [] (map fst cols)
         \<and> table_list fin = SCHEMA_NAME @ ''.'' @ V_TAB_NM
         \<and> ((\<forall>c\<in>set cols. fst c \<noteq> []) \<longrightarrow>
              view_ddl V_TAB_NM fin =
                ''CREATE OR REPLACE VIEW '' @ V_TAB_NM @ ''_VW AS '' @ nl @
                ''SELECT '' @ nl @ joined (map fst cols) @ nl @
                ''FROM '' @ SCHEMA_NAME @ ''.'' @ V_TAB_NM)"
proof -
  have fin: "fin = (initial SCHEMA_NAME V_TAB_NM)\<lparr>col_list := add_all [] (map fst cols)\<rparr>"
    unfolding assms(3) generate_def assms(1) [symmetric]
    by (simp add: column_loop_scalar [OF assms(2)] initial_def)
  have "view_ddl V_TAB_NM fin =
      ''CREATE OR REPLACE VIEW '' @ V_TAB_NM @ ''_VW AS '' @ nl @
      ''SELECT '' @ nl @ joined (map fst cols) @ nl @
      ''FROM '' @ SCHEMA_NAME @ ''.'' @ V_TAB_NM"
    if "\<forall>c\<in>set cols. fst c \<noteq> []"
  proof -
    from that have "\<forall>f\<in>set (map fst cols). f \<noteq> []" by simp
    then show ?thesis
      by (simp add: fin view_ddl_def add_all_joined initial_def)
  qed
  then show ?thesis
    by (simp add: fin initial_def)
qed

theorem scalar_only_view_witness:
  "view_ddl ''T'' (generate (fixed_engine [(''ID'', ''NUMBER''), (''NAME'', ''TEXT'')] [] [])
       ''D'' ''S'' ''T'' ''match col case'' ''string datatypes'') =
     ''CREATE OR REPLACE VIEW T_VW AS '' @ nl @ ''SELECT '' @ nl @ ''ID, '' @ nl @ ''NAME'' @ nl
       @ ''FROM S.T''"
  using scalar_only_view [OF refl _ refl,
      where E = "fixed_engine [(''ID'', ''NUMBER''), (''NAME'', ''TEXT'')] [] []"
        and DATA_BASE = "''D''" and SCHEMA_NAME = "''S''" and V_TAB_NM = "''T''"
        and COLUMN_CASE = "''match col case''" and COLUMN_TYPE = "''string datatypes''"]
  by simp




text \<open>
  C6.  In every generated statement the source list is the base table followed by one
  LATERAL FLATTEN for each array of the run that had an object member, and by nothing
  else: it has an auxiliary source exactly when some discovered array had an object
  member.  An array whose rows are all simple elements adds its indexed fragments and
  leaves the source list as it was.
\<close>

theorem auxiliary_sources_iff_object_array:
  assumes "fin = generate E D S T cc ct"
      and "rows = exec_array E (array_query ct (table_list st) col epath)"
      and "st' = element_body E cc ct col st (epath, ''ARRAY'', ealias)"
  shows "table_list fin =
           S @ ''.'' @ T @ concat (map lateral_flatten (registered (arrays_seen fin)))
         \<and> (table_list fin \<noteq> S @ ''.'' @ T \<longleftrightarrow>
              (\<exists>a\<in>set (arrays_seen fin). \<exists>r\<in>set (snd (snd a)). is_object r))
         \<and> ((\<forall>r\<in>set rows. \<not> is_object r) \<longrightarrow>
              table_list st' = table_list st
              \<and> col_list st' = add_separator (col_list st)
                   @ joined (map (simple_fragment (alias_dbl_quote cc) col epath ealias) rows))"
proof -
  define base where "base = S @ ''.'' @ T"
  have rendered: "table_list fin =
      base @ concat (map lateral_flatten (registered (arrays_seen fin)))"
    unfolding assms(1) base_def using generate_inv by blast
  have "table_list fin \<noteq> base \<longleftrightarrow> registered (arrays_seen fin) \<noteq> []"
    unfolding rendered by (simp only: append_self_conv concat_lateral_Nil)
  then have iff: "table_list fin \<noteq> base \<longleftrightarrow>
      (\<exists>a\<in>set (arrays_seen fin). \<exists>r\<in>set (snd (snd a)). is_object r)"
    by (simp only: registered_Nil_iff)
  have simple: "(\<forall>r\<in>set rows. \<not> is_object r) \<longrightarrow>
      table_list st' = table_list st
      \<and> col_list st' = add_separator (col_list st)
           @ joined (map (simple_fragment (alias_dbl_quote cc) col epath ealias) rows)"
  proof
    assume "\<forall>r\<in>set rows. \<not> is_object r"
    then have "filter is_object rows = []"
      by (simp add: filter_empty_conv)
    then show "table_list st' = table_list st
      \<and> col_list st' = add_separator (col_list st)
           @ joined (map (simple_fragment (alias_dbl_quote cc) col epath ealias) rows)"
      using assms(2) unfolding assms(3) element_body_array array_element_eq
      by (simp add: Let_def)
  qed
  from rendered iff simple show ?thesis
    unfolding base_def by simp
qed

theorem auxiliary_sources_iff_object_array_witness:
  "table_list (generate
       (fixed_engine [(''V'', ''VARIANT'')] [(''p'', ''ARRAY'', ''p'')] [(''.k'', ''STRING'', ''_k'', None)])
       ''D'' ''S'' ''T'' ''u'' ''m'') \<noteq> ''S.T''
   \<and> table_list (element_body
       (fixed_engine [] [] [([], ''FLOAT'', [], Some 0), ([], ''FLOAT'', [], Some 1)])
       ''u'' ''m'' ''V'' (initial ''S'' ''T'') (''rgb'', ''ARRAY'', ''rgb'')) = ''S.T''
   \<and> col_list (element_body
       (fixed_engine [] [] [([], ''FLOAT'', [], Some 0), ([], ''FLOAT'', [], Some 1)])
       ''u'' ''m'' ''V'' (initial ''S'' ''T'') (''rgb'', ''ARRAY'', ''rgb''))
     = ''V:rgb[0]::FLOAT as V_rgb_0, '' @ nl @ ''V:rgb[1]::FLOAT as V_rgb_1''"
proof -
  let ?Eo = "fixed_engine [(''V'', ''VARIANT'')] [(''p'', ''ARRAY'', ''p'')] [(''.k'', ''STRING'', ''_k'', None)]"
  let ?Es = "fixed_engine [] [] [([], ''FLOAT'', [], Some 0), ([], ''FLOAT'', [], Some (1::nat))]"
  have seen: "arrays_seen (generate ?Eo ''D'' ''S'' ''T'' ''u'' ''m'') =
      [(1, ''V:p'', [(''.k'', ''STRING'', ''_k'', None)])]"
    by (simp add: generate_def column_body_def element_body_def array_element_def initial_def
        substring1_def Let_def)
  show ?thesis
    using auxiliary_sources_iff_object_array [OF refl refl refl,
        where E = ?Eo and D = "''D''" and S = "''S''" and T = "''T''" and cc = "''u''"
          and ct = "''m''" and st = "initial ''S'' ''T''" and col = "''V''" and epath = "''p''"
          and ealias = "''p''"]
      auxiliary_sources_iff_object_array [OF refl refl refl,
        where E = ?Es and D = "''D''" and S = "''S''" and T = "''T''" and cc = "''u''"
          and ct = "''m''" and st = "initial ''S'' ''T''" and col = "''V''" and epath = "''rgb''"
          and ealias = "''rgb''"]
    by (simp add: seen is_object_def substring1_def initial_def simple_fragment_def
        add_separator_def alias_dbl_quote_def charAt_def toUpperCase_def toUpperCase_char_def
        registered_def has_object_def lateral_flatten_def)
qed

text \<open>
  C7.  The counter starts at zero, every ARRAY path moves it up by exactly one and nothing
  else changes it, so within one run the arrays met carry the numbers 1, 2, 3, ... in the
  order met.  The auxiliary sources of the statement are the arrays among them that had an
  object member, each under its own number: their ids increase strictly along the source
  list and none occurs twice.
\<close>

theorem array_ids_strictly_increasing:
  assumes "fin = generate E D S T cc ct"
  shows "array_num (initial S T) = 0
         \<and> map fst (arrays_seen fin) = [1..<Suc (array_num fin)]
         \<and> table_list fin =
             S @ ''.'' @ T @ concat (map lateral_flatten (registered (arrays_seen fin)))
         \<and> sorted_wrt (<) (map fst (registered (arrays_seen fin)))
         \<and> distinct (map fst (registered (arrays_seen fin)))
         \<and> array_num (element_body E cc ct col st e) =
             (if fst (snd e) = ''ARRAY'' then array_num st + 1 else array_num st)
         \<and> array_num st \<le> array_num (column_body E cc ct st c)"
proof -
  have inv: "table_list fin =
      (S @ ''.'' @ T) @ concat (map lateral_flatten (registered (arrays_seen fin)))"
    "map fst (arrays_seen fin) = [1..<Suc (array_num fin)]"
    unfolding assms using generate_inv by blast+
  have sorted: "sorted_wrt (<) (map fst (registered (arrays_seen fin)))"
    by (rule registered_sorted [OF inv(2)])
  then have "distinct (map fst (registered (arrays_seen fin)))"
    using strict_sorted_iff by blast
  with inv sorted show ?thesis
    by (simp add: initial_def array_num_element_body array_num_column_body)
qed

theorem array_ids_strictly_increasing_witness:
  "map fst (arrays_seen (generate
       (fixed_engine [(''V'', ''VARIANT'')] [(''p'', ''ARRAY'', ''p''), (''q'', ''ARRAY'', ''q'')]
          [(''.k'', ''STRING'', ''_k'', None)])
       ''D'' ''S'' ''T'' ''u'' ''m'')) = [1, 2]
   \<and> table_list (generate
       (fixed_engine [(''V'', ''VARIANT'')] [(''p'', ''ARRAY'', ''p''), (''q'', ''ARRAY'', ''q'')]
          [(''.k'', ''STRING'', ''_k'', None)])
       ''D'' ''S'' ''T'' ''u'' ''m'')
     = ''S.T,'' @ nl @ '' LATERAL FLATTEN(V:p) a1,'' @ nl @ '' LATERAL FLATTEN(V:q) a2''"
proof -
  let ?E = "fixed_engine [(''V'', ''VARIANT'')] [(''p'', ''ARRAY'', ''p''), (''q'', ''ARRAY'', ''q'')]
          [(''.k'', ''STRING'', ''_k'', None)]"
  have n: "array_num (generate ?E ''D'' ''S'' ''T'' ''u'' ''m'') = 2"
    by (simp add: generate_def column_body_def element_body_def array_num_array_element
        initial_def)
  have seen: "registered (arrays_seen (generate ?E ''D'' ''S'' ''T'' ''u'' ''m'')) =
      [(1, ''V:p''), (2, ''V:q'')]"
    by (simp add: generate_def column_body_def element_body_def array_element_def initial_def
        substring1_def registered_def has_object_def is_object_def Let_def)
  show ?thesis
    using array_ids_strictly_increasing [OF refl,
        where E = ?E and D = "''D''" and S = "''S''" and T = "''T''" and cc = "''u''"
          and ct = "''m''"]
    by (simp add: n seen lateral_flatten_def upt_rec)
qed




text \<open>
  C9.  An ARRAY path whose array query returns no row, met when the projection list is not
  empty, still adds the separator and then nothing: the list ends in \<open>sep\<close>.  Whatever the
  rest of the run adds comes behind a separator of its own, so the statement has an empty
  entry: the dangling separator is followed by the FROM line or by a second separator.
\<close>

theorem empty_array_dangling_separator:
  assumes "exec_array E (array_query ct (table_list st) col epath) = []"
      and "col_list st \<noteq> []"
      and "st' = element_body E cc ct col st (epath, ''ARRAY'', ealias)"
      and "fin = column_loop E cc ct (element_loop E cc ct col st' es) cs"
  shows "col_list st' = col_list st @ sep \<and> table_list st' = table_list st \<and>
         ((\<exists>tail. view_ddl T fin =
              ''CREATE OR REPLACE VIEW '' @ T @ ''_VW AS '' @ nl @ ''SELECT '' @ nl
                @ col_list st @ sep @ nl @ ''FROM '' @ tail)
          \<or> (\<exists>tail. view_ddl T fin =
              ''CREATE OR REPLACE VIEW '' @ T @ ''_VW AS '' @ nl @ ''SELECT '' @ nl
                @ col_list st @ sep @ sep @ tail))"
proof -
  have step: "col_list st' = col_list st @ sep" "table_list st' = table_list st"
    using assms(1,2) unfolding assms(3) element_body_array array_element_eq
    by (simp_all add: Let_def add_separator_nonempty)
  then have ne: "col_list st' \<noteq> []" by simp
  let ?mid = "element_loop E cc ct col st' es"
  have mid: "col_list ?mid = col_list st' \<or> (\<exists>x. col_list ?mid = col_list st' @ sep @ x)"
    by (rule element_loop_extends [OF ne])
  then have "col_list ?mid \<noteq> []" using ne by auto
  from column_loop_extends [OF this, of E cc ct cs] mid
  have "col_list fin = col_list st' \<or> (\<exists>x. col_list fin = col_list st' @ sep @ x)"
    unfolding assms(4) by auto
  then have "(\<exists>tail. view_ddl T fin =
              ''CREATE OR REPLACE VIEW '' @ T @ ''_VW AS '' @ nl @ ''SELECT '' @ nl
                @ col_list st @ sep @ nl @ ''FROM '' @ tail)
          \<or> (\<exists>tail. view_ddl T fin =
              ''CREATE OR REPLACE VIEW '' @ T @ ''_VW AS '' @ nl @ ''SELECT '' @ nl
                @ col_list st @ sep @ sep @ tail)"
  proof
    assume "col_list fin = col_list st'"
    then show ?thesis by (simp add: view_ddl_def step)
  next
    assume "\<exists>x. col_list fin = col_list st' @ sep @ x"
    then obtain x where "col_list fin = col_list st' @ sep @ x" ..
    then show ?thesis by (simp add: view_ddl_def step)
  qed
  with step show ?thesis by blast
qed

theorem empty_array_dangling_separator_witness:
  "col_list (element_body (fixed_engine [] [] []) ''u'' ''m'' ''V''
       \<lparr>col_list = ''ID'', table_list = ''S.T'', array_num = 0, arrays_seen = []\<rparr>
       (''p'', ''ARRAY'', ''p'')) = ''ID, '' @ nl
   \<and> view_ddl ''T'' (element_body (fixed_engine [] [] []) ''u'' ''m'' ''V''
       \<lparr>col_list = ''ID'', table_list = ''S.T'', array_num = 0, arrays_seen = []\<rparr>
       (''p'', ''ARRAY'', ''p''))
     = ''CREATE OR REPLACE VIEW T_VW AS '' @ nl @ ''SELECT '' @ nl @ ''ID, '' @ nl @ nl
         @ ''FROM S.T''"
  using empty_array_dangling_separator [OF _ _ refl refl,
      where E = "fixed_engine [] [] []" and ct = "''m''" and cc = "''u''" and col = "''V''"
        and st = "\<lparr>col_list = ''ID'', table_list = ''S.T'', array_num = 0, arrays_seen = []\<rparr>"
        and epath = "''p''" and ealias = "''p''" and es = "[]" and cs = "[]"]
  by (simp add: view_ddl_def)



end
